theory Spec2Isabelle
  imports Main "HOL-Library.Sublist"
begin

section \<open>Python strings\<close>

text \<open>
  A Python \<open>str\<close> is modelled as a \<open>string\<close>: the list of the bytes of its UTF-8
  encoding. Every delimiter, verb and pattern the program looks for is ASCII, and a
  prefix or substring test against ASCII text gives the same answer on the bytes as on the
  code points. \<open>str.lower\<close> and \<open>str.strip\<close> are modelled on the ASCII range, where
  they are exact: \<open>lower\<close> maps \<open>A\<close>..\<open>Z\<close> to \<open>a\<close>..\<open>z\<close>, and the whitespace that
  \<open>strip\<close> removes is TAB, LF, VT, FF, CR, the separators 0x1C..0x1F and the space.
  Bytes from 0x80 on are left alone by both, whereas Python also lower-cases letters
  outside ASCII and strips the spaces outside ASCII (U+00A0 and others): the model of these
  two functions is that of Python on ASCII text.
\<close>

definition nl :: char where
  "nl = CHR 0x0A"

definition lower_char :: "char \<Rightarrow> char" where
  "lower_char c =
     (case map_of (zip ''ABCDEFGHIJKLMNOPQRSTUVWXYZ'' ''abcdefghijklmnopqrstuvwxyz'') c of
        None \<Rightarrow> c
      | Some d \<Rightarrow> d)"

definition lower :: "string \<Rightarrow> string" where
  "lower s = map lower_char s"

definition isspace :: "char \<Rightarrow> bool" where
  "isspace c =
     (c = CHR 0x09 \<or> c = CHR 0x0A \<or> c = CHR 0x0B \<or> c = CHR 0x0C \<or> c = CHR 0x0D \<or>
      c = CHR 0x1C \<or> c = CHR 0x1D \<or> c = CHR 0x1E \<or> c = CHR 0x1F \<or> c = CHR 0x20)"

definition lstrip :: "string \<Rightarrow> string" where
  "lstrip s = dropWhile isspace s"

definition rstrip :: "string \<Rightarrow> string" where
  "rstrip s = rev (dropWhile isspace (rev s))"

definition strip :: "string \<Rightarrow> string" where
  "strip s = rstrip (lstrip s)"

text \<open>\<open>s.startswith(p)\<close>.\<close>

definition startswith :: "string \<Rightarrow> string \<Rightarrow> bool" where
  "startswith s p = prefix p s"

text \<open>\<open>sub in s\<close>: \<open>sub\<close> occurs in \<open>s\<close> as a contiguous substring.\<close>

fun contains :: "string \<Rightarrow> string \<Rightarrow> bool" where
  "contains sub [] = (sub = [])"
| "contains sub (c # cs) = (prefix sub (c # cs) \<or> contains sub cs)"

text \<open>\<open>s.split('\n')\<close>: the pieces between line feeds; never the empty list.\<close>

fun split_nl :: "string \<Rightarrow> string list" where
  "split_nl [] = [[]]"
| "split_nl (c # cs) =
     (if c = nl then [] # split_nl cs
      else (case split_nl cs of
              [] \<Rightarrow> [[c]]
            | l # ls \<Rightarrow> (c # l) # ls))"



section \<open>CommandClassifier (main.py)\<close>

definition SAFE_COMMANDS :: "string list" where
  "SAFE_COMMANDS =
     [''ls'', ''cd'', ''cat'', ''pwd'', ''echo'', ''which'', ''whereis'', ''man'', ''help'',
      ''grep'', ''find'', ''head'', ''tail'', ''less'', ''more'', ''wc'', ''sort'', ''uniq'',
      ''date'', ''cal'', ''whoami'', ''id'', ''groups'', ''history'', ''alias'', ''type'',
      ''file'', ''stat'', ''du'', ''df'', ''free'', ''uptime'', ''ps'', ''top'', ''htop'',
      ''git status'', ''git log'', ''git diff'', ''git show'', ''git branch'']"

definition SUDO_COMMANDS :: "string list" where
  "SUDO_COMMANDS =
     [''sudo'', ''su'', ''passwd'', ''usermod'', ''groupmod'', ''chown'', ''chmod'',
      ''mount'', ''umount'', ''systemctl'', ''service'', ''apt'', ''yum'', ''dnf'',
      ''pacman'', ''snap'', ''pip install'', ''npm install'', ''gem install'']"

definition DANGEROUS_COMMANDS :: "string list" where
  "DANGEROUS_COMMANDS =
     [''rm -rf'', ''dd'', ''mkfs'', ''fdisk'', ''parted'', ''shred'', ''wipefs'',
      '':(){:|:&};:'', '':(){ :|:& };:'', ''fork()'', ''while true'',
      ''> /dev/'', ''truncate'', ''>/dev/sda'', ''>/dev/sd'']"

definition FILESYSTEM_DESTRUCTIVE :: "string list" where
  "FILESYSTEM_DESTRUCTIVE = [''rm'', ''rmdir'', ''mv'', ''cp'', ''ln'', ''unlink'']"

text \<open>
  The list of important directories is a literal inside \<open>classify_command\<close>; it is named
  here so that statements can refer to it.
\<close>

definition PROTECTED_PATHS :: "string list" where
  "PROTECTED_PATHS = [''/'', ''/home'', ''/etc'', ''/usr'', ''/var'', ''/boot'']"

text \<open>
  The four tests of \<open>classify_command\<close>, each on the lower-cased, stripped command
  (\<open>any(... for ... in ...)\<close> is \<open>list_ex\<close>).
\<close>

definition is_dangerous_pattern :: "string \<Rightarrow> bool" where
  "is_dangerous_pattern cmd_lower =
     list_ex (\<lambda>danger. contains danger cmd_lower) DANGEROUS_COMMANDS"

definition is_fs_destructive :: "string \<Rightarrow> bool" where
  "is_fs_destructive cmd_lower =
     list_ex (\<lambda>fs_cmd. startswith cmd_lower fs_cmd) FILESYSTEM_DESTRUCTIVE"

definition on_important_dir :: "string \<Rightarrow> bool" where
  "on_important_dir cmd_lower = list_ex (\<lambda>path. contains path cmd_lower) PROTECTED_PATHS"

definition is_sudo_command :: "string \<Rightarrow> bool" where
  "is_sudo_command cmd_lower =
     list_ex (\<lambda>sudo_cmd. startswith cmd_lower sudo_cmd) SUDO_COMMANDS"

definition is_safe_command :: "string \<Rightarrow> bool" where
  "is_safe_command cmd_lower =
     list_ex (\<lambda>safe_cmd. startswith cmd_lower safe_cmd) SAFE_COMMANDS"

definition classify_command :: "string \<Rightarrow> string" where
  "classify_command cmd =
     (let cmd_lower = strip (lower cmd) in
      if is_dangerous_pattern cmd_lower then ''dangerous''
      else if is_fs_destructive cmd_lower then
        (if on_important_dir cmd_lower then ''dangerous'' else ''sudo'')
      else if is_sudo_command cmd_lower then ''sudo''
      else if is_safe_command cmd_lower then ''safe''
      else ''unknown'')"

section \<open>CommandExtractor (main.py)\<close>

text \<open>
  \<open>re.findall(r'```(?:bash|sh|shell)?\n(.*?)```', text, re.DOTALL)\<close>.
  The lazy group \<open>(.*?)\<close> followed by the closing marker takes the shortest body after
  which the marker stands: \<open>find_fence\<close> returns that body and the text after the marker,
  or \<open>None\<close> when no marker follows.
\<close>

definition FENCE :: string where
  "FENCE = ''```''"

fun find_fence :: "string \<Rightarrow> (string \<times> string) option" where
  "find_fence [] = None"
| "find_fence (c # cs) =
     (if prefix FENCE (c # cs) then Some ([], drop 3 (c # cs))
      else (case find_fence cs of
              None \<Rightarrow> None
            | Some (body, rest) \<Rightarrow> Some (c # body, rest)))"

text \<open>
  One alternative of the optional tag, then the line feed, then the rest of the pattern.
  The regex engine tries \<open>bash\<close>, \<open>sh\<close>, \<open>shell\<close> and finally no tag, in this order,
  and backtracks to the next alternative when the rest of the pattern fails.
\<close>

definition tag_then_body :: "string \<Rightarrow> string \<Rightarrow> (string \<times> string) option" where
  "tag_then_body tag r =
     (if prefix (tag @ [nl]) r then find_fence (drop (length tag + 1) r) else None)"

fun first_some :: "'a option list \<Rightarrow> 'a option" where
  "first_some [] = None"
| "first_some (None # xs) = first_some xs"
| "first_some (Some x # xs) = Some x"

text \<open>A match of the block pattern at the start of \<open>s\<close>: the group and the text after the match.\<close>

definition match_block :: "string \<Rightarrow> (string \<times> string) option" where
  "match_block s =
     (if prefix FENCE s
      then first_some (map (\<lambda>tag. tag_then_body tag (drop 3 s)) [''bash'', ''sh'', ''shell'', []])
      else None)"

text \<open>
  \<open>findall\<close> scans from the left: where the pattern matches it records the group and goes
  on after the match, elsewhere it moves one character on.
\<close>

function findall_blocks :: "string \<Rightarrow> string list" where
  "findall_blocks [] = []"
| "findall_blocks (c # cs) =
     (case match_block (c # cs) of
        Some (body, rest) \<Rightarrow> body # findall_blocks rest
      | None \<Rightarrow> findall_blocks cs)"
  by pat_completeness auto
termination
proof (relation "measure length")
  show "wf (measure length)"
    by simp
next
  fix c :: char and cs x2 body rest
  assume m: "match_block (c # cs) = Some x2" and x2: "(body, rest) = x2"
  have ff: "length r < length s" if "find_fence s = Some (b, r)" for s b r
    using that
    by (induction s arbitrary: b r) (auto split: if_splits option.splits)
  have tb: "length r \<le> length s" if "tag_then_body tag s = Some (b, r)" for tag s b r
    using that ff [of "drop (length tag + 1) s" b r]
    by (auto simp: tag_then_body_def split: if_splits)
  have fs: "Some y \<in> set xs" if "first_some xs = Some y" for xs :: "(string \<times> string) option list" and y
    using that by (induction xs rule: first_some.induct) auto
  from m x2 have p: "prefix FENCE (c # cs)"
    and f: "first_some (map (\<lambda>tag. tag_then_body tag (drop 3 (c # cs))) [''bash'', ''sh'', ''shell'', []])
             = Some (body, rest)"
    by (auto simp: match_block_def split: if_splits)
  from fs [OF f] obtain tag where "tag_then_body tag (drop 3 (c # cs)) = Some (body, rest)"
    by auto
  then have "length rest \<le> length (drop 3 (c # cs))"
    by (rule tb)
  with p show "(rest, c # cs) \<in> measure length"
    by (auto simp: FENCE_def)
next
  fix c :: char and cs
  show "(cs, c # cs) \<in> measure length"
    by simp
qed

text \<open>
  \<open>re.findall(r'`([^`\n]+)`', text)\<close>. The greedy group takes the whole run of characters
  that are neither a backtick nor a line feed; a shorter run is followed by one more such
  character, never by the closing backtick, so backtracking finds nothing else.
\<close>

definition inline_char :: "char \<Rightarrow> bool" where
  "inline_char c = (c \<noteq> CHR ''`'' \<and> c \<noteq> nl)"

definition match_inline :: "string \<Rightarrow> (string \<times> string) option" where
  "match_inline s =
     (case s of
        [] \<Rightarrow> None
      | c # cs \<Rightarrow>
          if c = CHR ''`'' then
            (let run = takeWhile inline_char cs;
                 rest = dropWhile inline_char cs
             in if run \<noteq> [] \<and> prefix ''`'' rest then Some (run, drop 1 rest) else None)
          else None)"

function findall_inline :: "string \<Rightarrow> string list" where
  "findall_inline [] = []"
| "findall_inline (c # cs) =
     (case match_inline (c # cs) of
        Some (span, rest) \<Rightarrow> span # findall_inline rest
      | None \<Rightarrow> findall_inline cs)"
  by pat_completeness auto
termination
proof (relation "measure length")
  show "wf (measure length)"
    by simp
next
  fix c :: char and cs x2 span rest
  assume m: "match_inline (c # cs) = Some x2" and x2: "(span, rest) = x2"
  then have "rest = drop 1 (dropWhile inline_char cs)"
    by (auto simp: match_inline_def Let_def split: if_splits)
  moreover have "length (dropWhile inline_char cs) \<le> length cs"
    by (rule length_dropWhile_le)
  ultimately show "(rest, c # cs) \<in> measure length"
    by simp
next
  fix c :: char and cs
  show "(cs, c # cs) \<in> measure length"
    by simp
qed

text \<open>The loop over one code block: its lines, stripped, without blank lines and comments.\<close>

definition block_lines :: "string \<Rightarrow> string list" where
  "block_lines block =
     filter (\<lambda>line. line \<noteq> [] \<and> \<not> startswith line ''#'')
       (map strip (split_nl (strip block)))"

definition INLINE_PREFIXES :: "string list" where
  "INLINE_PREFIXES =
     [''ls'', ''cd'', ''cat'', ''grep'', ''find'', ''mkdir'', ''rm'', ''cp'', ''mv'', ''sudo'',
      ''touch'']"

text \<open>The test of the loop over the inline spans, on the stripped span.\<close>

definition inline_keep :: "string \<Rightarrow> bool" where
  "inline_keep cmd =
     (contains '' '' cmd \<and> list_ex (\<lambda>c. startswith cmd c) INLINE_PREFIXES)"

definition extract_commands :: "string \<Rightarrow> string list" where
  "extract_commands text =
     (let code_blocks = findall_blocks text;
          inline_commands = findall_inline text
      in concat (map block_lines code_blocks) @ filter inline_keep (map strip inline_commands))"

section \<open>GumCommandInterface (main.py)\<close>

text \<open>Exceptions are values; a function that can raise returns \<open>error + 'a\<close>.\<close>

datatype error =
    OSError
  | JSONDecodeError
  | AttributeError
  | IndexError
  | EOFError
  | RuntimeError string

text \<open>What \<open>subprocess.run\<close> returns with \<open>capture_output=True\<close>.\<close>

record completed_process =
  returncode :: int
  stdout :: string
  stderr :: string

text \<open>
  What lies outside the process: the user's answers through \<open>gum_confirm\<close> and
  \<open>gum_choose\<close> (each may also end in an exception, as \<open>input()\<close> does at the end of
  the input), the backend's \<open>query\<close>, and \<open>subprocess.run\<close> on
  \<open>["/bin/bash", "-c", command]\<close>, which raises when the process cannot be started.
\<close>

record world =
  gum_confirm :: "string \<Rightarrow> error + bool"
  gum_choose :: "string list \<Rightarrow> string \<Rightarrow> error + string"
  backend_query :: "string \<Rightarrow> string list \<Rightarrow> string \<Rightarrow> error + string"
  subprocess_run :: "string \<Rightarrow> error + completed_process"

text \<open>
  The labels and messages of the source, byte for byte. The first bytes of the three menu
  labels and of the warnings are pictographs as the source file stores them.
\<close>

definition EXPLAIN_MARK :: string where
  "EXPLAIN_MARK =
     [CHR 0xEF, CHR 0xA3, CHR 0xBF, CHR 0xC3, CHR 0xBC, CHR 0xC3, CHR 0xB6, CHR 0xC2, CHR 0xAE]"

definition PROCEED_MARK :: string where
  "PROCEED_MARK =
     [CHR 0xEF, CHR 0xA3, CHR 0xBF, CHR 0xC3, CHR 0xBC, CHR 0xC3, CHR 0xAE, CHR 0xC3, CHR 0xAD]"

definition CANCEL_MARK :: string where
  "CANCEL_MARK = [CHR 0xE2, CHR 0x80, CHR 0x9A, CHR 0xC3, CHR 0xB9, CHR 0xC3, CHR 0xA5]"

definition WARNING_MARK :: string where
  "WARNING_MARK =
     [CHR 0xE2, CHR 0x80, CHR 0x9A, CHR 0xC3, CHR 0xB6, CHR 0xE2, CHR 0x80, CHR 0xA0,
      CHR 0xC3, CHR 0x94, CHR 0xE2, CHR 0x88, CHR 0x8F, CHR 0xC3, CHR 0xA8]"

definition EXIT_OPTION :: string where
  "EXIT_OPTION = ''Don't run a command''"

definition DANGEROUS_OPTIONS :: "string list" where
  "DANGEROUS_OPTIONS =
     [EXPLAIN_MARK @ '' Explain risks first'',
      PROCEED_MARK @ '' I understand the risks, proceed anyway'',
      CANCEL_MARK @ '' Cancel'']"

definition explain_command_risks ::
  "world \<Rightarrow> string \<Rightarrow> string list \<Rightarrow> string \<Rightarrow> error + string" where
  "explain_command_risks w command history system_info =
     (let risk_prompt =
        ''Explain the potential risks and dangers of running this command: '' @ [CHR 0x27] @
        command @ [CHR 0x27] @ ''. What could go wrong? What precautions should be taken?''
      in backend_query w risk_prompt history system_info)"

text \<open>
  \<open>execute_command\<close> catches every exception of \<open>subprocess.run\<close> and returns
  \<open>False\<close> for it. The list \<open>calls\<close> records the commands \<open>execute_command\<close> was
  invoked with, so that a statement can say it was not invoked. What the methods print is
  left out.
\<close>

definition execute_command :: "world \<Rightarrow> string \<Rightarrow> string list \<Rightarrow> bool \<times> string list" where
  "execute_command w command calls =
     (case subprocess_run w command of
        Inl e \<Rightarrow> (False, calls @ [command])
      | Inr result \<Rightarrow> (returncode result = 0, calls @ [command]))"

text \<open>
  \<open>if self.gum_confirm(message): return self.execute_command(command)\<close>, and otherwise
  the \<open>return False\<close> at the end of \<open>handle_command_execution\<close>.
\<close>

definition confirm_then_execute ::
  "world \<Rightarrow> string \<Rightarrow> string \<Rightarrow> string list \<Rightarrow> (error + bool) \<times> string list" where
  "confirm_then_execute w message command calls =
     (case gum_confirm w message of
        Inl e \<Rightarrow> (Inl e, calls)
      | Inr answer \<Rightarrow>
          if answer then (case execute_command w command calls of (r, calls') \<Rightarrow> (Inr r, calls'))
          else (Inr False, calls))"

definition handle_command_execution ::
  "world \<Rightarrow> string \<Rightarrow> string list \<Rightarrow> string \<Rightarrow> string list \<Rightarrow> (error + bool) \<times> string list" where
  "handle_command_execution w command history system_info calls =
     (let classification = classify_command command in
      if classification = ''safe'' then
        confirm_then_execute w (''Run safe command: '' @ command @ ''?'') command calls
      else if classification = ''sudo'' then
        confirm_then_execute w
          (WARNING_MARK @ ''  This command requires elevated privileges: '' @ command @ [nl] @
           ''Proceed?'') command calls
      else if classification = ''dangerous'' then
        (case gum_choose w DANGEROUS_OPTIONS
                (WARNING_MARK @ ''  DANGEROUS COMMAND DETECTED: '' @ command) of
           Inl e \<Rightarrow> (Inl e, calls)
         | Inr choice \<Rightarrow>
             if choice \<noteq> [] \<and> startswith choice EXPLAIN_MARK then
               (case explain_command_risks w command history system_info of
                  Inl e \<Rightarrow> (Inl e, calls)
                | Inr risks \<Rightarrow>
                    confirm_then_execute w
                      ''After reading the risks, do you still want to proceed?'' command calls)
             else if choice \<noteq> [] \<and> startswith choice PROCEED_MARK then
               confirm_then_execute w
                 ''Are you sure you want to proceed with this dangerous command?'' command calls
             else (Inr False, calls))
      else
        confirm_then_execute w
          (WARNING_MARK @ ''  Unknown command classification: '' @ command @ [nl] @
           ''Proceed with caution?'') command calls)"

section \<open>config.py and the start of main\<close>

text \<open>
  The value \<open>json.load\<close> returns. A JSON object becomes a dict; the association list
  holds its entries, one for each key. The parser itself is the standard library's and is
  taken by its outcome: it raises on text that is not JSON and returns the value otherwise.
\<close>

datatype json =
    JNull
  | JBool bool
  | JNumber int
  | JString string
  | JArray "json list"
  | JObject "(string \<times> json) list"

text \<open>
  The states of the file at \<open>CONFIG_PATH\<close>: it does not exist; it exists and \<open>open\<close>
  raises; it is read and \<open>json.load\<close> raises because the text is not JSON; it is read and
  parsed to a value.
\<close>

datatype config_file =
    Missing
  | Unreadable
  | Malformed
  | Parsed json

text \<open>
  \<open>get_backend\<close> has no exception handler: what \<open>open\<close>, \<open>json.load\<close> or the
  \<open>.get\<close> of a value that is not a dict raises leaves the function.
\<close>

fun get_backend :: "config_file \<Rightarrow> error + json" where
  "get_backend Missing = Inr (JString ''ollama'')"
| "get_backend Unreadable = Inl OSError"
| "get_backend Malformed = Inl JSONDecodeError"
| "get_backend (Parsed (JObject entries)) =
     Inr (case map_of entries ''backend'' of
            None \<Rightarrow> JString ''ollama''
          | Some v \<Rightarrow> v)"
| "get_backend (Parsed v) = Inl AttributeError"

text \<open>
  \<open>main\<close> from its first line to the choice of the backend module. The call of
  \<open>get_backend\<close> stands before the \<open>try\<close> block, so its exception ends the program
  with a traceback. The readings of the shell history and of the system information, which
  do not depend on the configuration, are left out.
\<close>

datatype startup =
    SysExit int
  | Traceback error
  | Import string

definition main_startup :: "string list \<Rightarrow> config_file \<Rightarrow> startup" where
  "main_startup argv cfg =
     (if length argv < 2 then SysExit 1
      else (case get_backend cfg of
              Inl e \<Rightarrow> Traceback e
            | Inr backend \<Rightarrow>
                if backend = JString ''gpt'' then Import ''gpt_backend''
                else if backend = JString ''claude'' then Import ''claude_backend''
                else if backend = JString ''ollama'' then Import ''ollama_backend''
                else SysExit 1))"

section \<open>The backends (gpt_backend.py, claude_backend.py, ollama_backend.py)\<close>













section \<open>Concrete worlds\<close>

text \<open>
  Three worlds for the concrete cases below: a user who answers no to every confirmation
  and picks the third label, Cancel, at the menu; and a user who answers yes and picks the
  second label, while the command exits with status 1, or while bash cannot be started.
\<close>

definition declining_user :: world where
  "declining_user =
     \<lparr>gum_confirm = (\<lambda>message. Inr False),
      gum_choose = (\<lambda>options header. Inr (options ! 2)),
      backend_query = (\<lambda>prompt history system_info. Inr ''it deletes everything''),
      subprocess_run = (\<lambda>command. Inr \<lparr>returncode = 0, stdout = [], stderr = []\<rparr>)\<rparr>"

definition failing_run :: world where
  "failing_run =
     \<lparr>gum_confirm = (\<lambda>message. Inr True),
      gum_choose = (\<lambda>options header. Inr (options ! 1)),
      backend_query = (\<lambda>prompt history system_info. Inr ''it deletes everything''),
      subprocess_run =
        (\<lambda>command. Inr \<lparr>returncode = 1, stdout = [], stderr = ''No such file''\<rparr>)\<rparr>"

definition failing_spawn :: world where
  "failing_spawn = failing_run\<lparr>subprocess_run := (\<lambda>command. Inl OSError)\<rparr>"

section \<open>Facts about the string primitives\<close>

lemma contains_iff_sublist: "contains sub s \<longleftrightarrow> sublist sub s"
  by (induction s) (auto simp: sublist_Cons_right)

lemma contains_slash: "contains ''/'' s \<longleftrightarrow> CHR ''/'' \<in> set s"
  by (induction s) auto

lemma contains_append_left: "contains sub s \<Longrightarrow> contains (take n sub) s"
proof -
  assume "contains sub s"
  then obtain ps ss where "s = ps @ sub @ ss"
    by (auto simp: contains_iff_sublist sublist_def)
  then have "s = ps @ take n sub @ (drop n sub @ ss)"
    by simp
  then show ?thesis
    unfolding contains_iff_sublist sublist_def by blast
qed

text \<open>
  Every protected path begins with a slash, so a command mentions one of them exactly when
  it has a slash anywhere.
\<close>

lemma on_important_dir_iff_slash: "on_important_dir s \<longleftrightarrow> CHR ''/'' \<in> set s"
proof
  assume "on_important_dir s"
  then obtain p where p: "p \<in> set PROTECTED_PATHS" "contains p s"
    by (auto simp: on_important_dir_def list_ex_iff)
  from p(1) have "take 1 p = ''/''"
    by (auto simp: PROTECTED_PATHS_def)
  with contains_append_left [OF p(2), of 1] show "CHR ''/'' \<in> set s"
    by (simp add: contains_slash)
next
  assume "CHR ''/'' \<in> set s"
  then show "on_important_dir s"
    by (simp add: on_important_dir_def PROTECTED_PATHS_def contains_slash)
qed

section \<open>The classifier's tiers\<close>

text \<open>
  C2. A command whose lower-cased, stripped form contains one of the dangerous patterns
  is classified \<open>dangerous\<close>, whatever it starts with: the pattern test comes first
  and the prefix tests of the later tiers are never reached.
\<close>

theorem dangerous_pattern_first:
  assumes "danger \<in> set DANGEROUS_COMMANDS"
    and "contains danger (strip (lower cmd))"
  shows "classify_command cmd = ''dangerous''"
proof -
  from assms have "is_dangerous_pattern (strip (lower cmd))"
    unfolding is_dangerous_pattern_def list_ex_iff by blast
  then show ?thesis
    by (simp add: classify_command_def)
qed

theorem dangerous_pattern_first_witness:
  "''rm -rf'' \<in> set DANGEROUS_COMMANDS \<and>
   contains ''rm -rf'' (strip (lower ''ls; RM -rf /tmp/x  '')) \<and>
   classify_command ''ls; RM -rf /tmp/x  '' = ''dangerous''"
proof -
  have m: "''rm -rf'' \<in> set DANGEROUS_COMMANDS"
    by (simp add: DANGEROUS_COMMANDS_def)
  have l: "strip (lower ''ls; RM -rf /tmp/x  '') = ''ls; rm -rf /tmp/x''"
    by (simp add: strip_def lstrip_def rstrip_def lower_def lower_char_def isspace_def)
  have c: "contains ''rm -rf'' (strip (lower ''ls; RM -rf /tmp/x  ''))"
    unfolding l by simp
  from m c dangerous_pattern_first [OF m c] show ?thesis
    by simp
qed

lemma strip_lower_eval:
  "strip (lower '' RM Notes.TXT'') = ''rm notes.txt''"
  "strip (lower ''mv A /etc/b '') = ''mv a /etc/b''"
  "strip (lower ''Catastrophe --purge-all'') = ''catastrophe --purge-all''"
  by (simp_all add: strip_def lstrip_def rstrip_def lower_def lower_char_def isspace_def)

text \<open>
  C1. A command whose lower-cased, stripped form starts with one of the filesystem verbs
  \<open>rm\<close>, \<open>rmdir\<close>, \<open>mv\<close>, \<open>cp\<close>, \<open>ln\<close>, \<open>unlink\<close> and contains no dangerous
  pattern is classified \<open>dangerous\<close> when that form contains one of the protected paths
  \<open>/\<close>, \<open>/home\<close>, \<open>/etc\<close>, \<open>/usr\<close>, \<open>/var\<close>, \<open>/boot\<close> anywhere, and \<open>sudo\<close>
  otherwise.
\<close>

theorem fs_destructive_tier:
  assumes "fs_cmd \<in> set FILESYSTEM_DESTRUCTIVE"
    and "startswith (strip (lower cmd)) fs_cmd"
    and "\<not> (\<exists>danger \<in> set DANGEROUS_COMMANDS. contains danger (strip (lower cmd)))"
  shows "classify_command cmd =
    (if \<exists>path \<in> set PROTECTED_PATHS. contains path (strip (lower cmd))
     then ''dangerous'' else ''sudo'')"
proof -
  from assms(3) have d: "\<not> is_dangerous_pattern (strip (lower cmd))"
    by (simp add: is_dangerous_pattern_def list_ex_iff)
  from assms(1,2) have f: "is_fs_destructive (strip (lower cmd))"
    unfolding is_fs_destructive_def list_ex_iff by blast
  show ?thesis
    using d f by (simp add: classify_command_def on_important_dir_def list_ex_iff)
qed

theorem fs_destructive_tier_witness:
  "''rm'' \<in> set FILESYSTEM_DESTRUCTIVE \<and>
   startswith (strip (lower '' RM Notes.TXT'')) ''rm'' \<and>
   (\<not> (\<exists>danger \<in> set DANGEROUS_COMMANDS. contains danger (strip (lower '' RM Notes.TXT'')))) \<and>
   classify_command '' RM Notes.TXT'' = ''sudo'' \<and>
   ''mv'' \<in> set FILESYSTEM_DESTRUCTIVE \<and>
   startswith (strip (lower ''mv A /etc/b '')) ''mv'' \<and>
   (\<not> (\<exists>danger \<in> set DANGEROUS_COMMANDS. contains danger (strip (lower ''mv A /etc/b '')))) \<and>
   classify_command ''mv A /etc/b '' = ''dangerous''"
proof -
  have m1: "''rm'' \<in> set FILESYSTEM_DESTRUCTIVE" and m2: "''mv'' \<in> set FILESYSTEM_DESTRUCTIVE"
    by (simp_all add: FILESYSTEM_DESTRUCTIVE_def)
  have s1: "startswith (strip (lower '' RM Notes.TXT'')) ''rm''"
    and s2: "startswith (strip (lower ''mv A /etc/b '')) ''mv''"
    by (simp_all add: strip_lower_eval startswith_def)
  have d1: "\<not> (\<exists>danger \<in> set DANGEROUS_COMMANDS. contains danger (strip (lower '' RM Notes.TXT'')))"
    by (simp add: strip_lower_eval DANGEROUS_COMMANDS_def)
  have d2: "\<not> (\<exists>danger \<in> set DANGEROUS_COMMANDS. contains danger (strip (lower ''mv A /etc/b '')))"
    by (simp add: strip_lower_eval DANGEROUS_COMMANDS_def)
  have p1: "\<not> (\<exists>path \<in> set PROTECTED_PATHS. contains path (strip (lower '' RM Notes.TXT'')))"
    by (simp add: strip_lower_eval PROTECTED_PATHS_def)
  have p2: "\<exists>path \<in> set PROTECTED_PATHS. contains path (strip (lower ''mv A /etc/b ''))"
    by (simp add: strip_lower_eval PROTECTED_PATHS_def)
  have c1: "classify_command '' RM Notes.TXT'' = ''sudo''"
    using fs_destructive_tier [OF m1 s1 d1] p1 by simp
  have c2: "classify_command ''mv A /etc/b '' = ''dangerous''"
    using fs_destructive_tier [OF m2 s2 d2] p2 by simp
  from m1 m2 s1 s2 d1 d2 c1 c2 show ?thesis
    by blast
qed

text \<open>
  C10. The prefix tests know no word boundary: a command whose lower-cased, stripped form
  begins with the three characters \<open>cat\<close> and contains no dangerous pattern is classified
  \<open>safe\<close>, whatever follows those characters; \<open>catastrophe --purge-all\<close> is such a
  command.
\<close>

theorem cat_prefix_is_safe:
  assumes "startswith (strip (lower cmd)) ''cat''"
    and "\<not> (\<exists>danger \<in> set DANGEROUS_COMMANDS. contains danger (strip (lower cmd)))"
  shows "classify_command cmd = ''safe''"
proof -
  from assms(1) obtain r where r: "strip (lower cmd) = ''cat'' @ r"
    by (auto simp: startswith_def prefix_def)
  from assms(2) have d: "\<not> is_dangerous_pattern (strip (lower cmd))"
    by (simp add: is_dangerous_pattern_def list_ex_iff)
  have f: "\<not> is_fs_destructive (''cat'' @ r)"
    by (simp add: is_fs_destructive_def FILESYSTEM_DESTRUCTIVE_def startswith_def)
  have s: "\<not> is_sudo_command (''cat'' @ r)"
    by (simp add: is_sudo_command_def SUDO_COMMANDS_def startswith_def)
  have k: "is_safe_command (''cat'' @ r)"
    by (simp add: is_safe_command_def SAFE_COMMANDS_def startswith_def)
  show ?thesis
    using d f s k by (simp add: classify_command_def r)
qed

theorem cat_prefix_is_safe_witness:
  "startswith (strip (lower ''Catastrophe --purge-all'')) ''cat'' \<and>
   (\<not> (\<exists>danger \<in> set DANGEROUS_COMMANDS.
      contains danger (strip (lower ''Catastrophe --purge-all'')))) \<and>
   classify_command ''Catastrophe --purge-all'' = ''safe''"
proof -
  have s: "startswith (strip (lower ''Catastrophe --purge-all'')) ''cat''"
    by (simp add: strip_lower_eval startswith_def)
  have d: "\<not> (\<exists>danger \<in> set DANGEROUS_COMMANDS.
      contains danger (strip (lower ''Catastrophe --purge-all'')))"
    by (simp add: strip_lower_eval DANGEROUS_COMMANDS_def)
  from s d cat_prefix_is_safe [OF s d] show ?thesis
    by blast
qed

section \<open>The execution gate\<close>

lemma confirm_no:
  "gum_confirm w message = Inr False \<Longrightarrow>
   confirm_then_execute w message command calls = (Inr False, calls)"
  by (simp add: confirm_then_execute_def)

lemma confirm_yes:
  "gum_confirm w message = Inr True \<Longrightarrow>
   confirm_then_execute w message command calls =
     (Inr (fst (execute_command w command calls)), calls @ [command])"
  by (simp add: confirm_then_execute_def execute_command_def split: sum.splits)

lemma execute_command_fails:
  assumes "\<not> (\<exists>result. subprocess_run w command = Inr result \<and> returncode result = 0)"
  shows "execute_command w command calls = (False, calls @ [command])"
  using assms by (auto simp: execute_command_def split: sum.splits)

lemma classify_eval:
  "classify_command ''rm -rf /'' = ''dangerous''"
  "classify_command ''ls'' = ''safe''"
  by (simp_all add: classify_command_def strip_def lstrip_def rstrip_def lower_def lower_char_def
      isspace_def is_dangerous_pattern_def DANGEROUS_COMMANDS_def is_fs_destructive_def
      FILESYSTEM_DESTRUCTIVE_def is_sudo_command_def SUDO_COMMANDS_def is_safe_command_def
      SAFE_COMMANDS_def startswith_def)

lemma world_eval:
  "gum_choose declining_user DANGEROUS_OPTIONS header = Inr (CANCEL_MARK @ '' Cancel'')"
  "gum_choose failing_run DANGEROUS_OPTIONS header =
     Inr (PROCEED_MARK @ '' I understand the risks, proceed anyway'')"
  "explain_command_risks declining_user command history system_info =
     Inr ''it deletes everything''"
  "explain_command_risks failing_run command history system_info =
     Inr ''it deletes everything''"
  by (simp_all add: declining_user_def failing_run_def DANGEROUS_OPTIONS_def
      explain_command_risks_def)

text \<open>
  C5. Whatever the command and its tier: when the user answers no to the confirmation, or
  at the menu of a dangerous command picks a label that is neither the explanation nor the
  proceed label (Cancel, the exit option, nothing), \<open>handle_command_execution\<close> returns
  \<open>False\<close> and the list of \<open>execute_command\<close> calls is as it was. The rejection
  presupposes that the menu and, where it is asked for, the risk explanation came back
  without an exception.
\<close>

theorem rejection_never_executes:
  assumes choice: "gum_choose w DANGEROUS_OPTIONS
      (WARNING_MARK @ ''  DANGEROUS COMMAND DETECTED: '' @ command) = Inr choice"
    and risks: "explain_command_risks w command history system_info = Inr risks"
    and rejects: "(\<forall>message. gum_confirm w message = Inr False) \<or>
      (classify_command command = ''dangerous'' \<and>
       \<not> startswith choice EXPLAIN_MARK \<and> \<not> startswith choice PROCEED_MARK)"
  shows "handle_command_execution w command history system_info calls = (Inr False, calls)"
  using rejects
proof
  assume "\<forall>message. gum_confirm w message = Inr False"
  then have no: "confirm_then_execute w message command calls = (Inr False, calls)" for message
    by (simp add: confirm_no)
  show ?thesis
    using choice risks by (simp add: handle_command_execution_def Let_def no)
next
  assume "classify_command command = ''dangerous'' \<and>
       \<not> startswith choice EXPLAIN_MARK \<and> \<not> startswith choice PROCEED_MARK"
  with choice show ?thesis
    by (simp add: handle_command_execution_def Let_def)
qed

theorem rejection_never_executes_witness:
  "gum_choose declining_user DANGEROUS_OPTIONS
      (WARNING_MARK @ ''  DANGEROUS COMMAND DETECTED: '' @ ''rm -rf /'') =
      Inr (CANCEL_MARK @ '' Cancel'') \<and>
   explain_command_risks declining_user ''rm -rf /'' [] [] = Inr ''it deletes everything'' \<and>
   (\<forall>message. gum_confirm declining_user message = Inr False) \<and>
   classify_command ''rm -rf /'' = ''dangerous'' \<and>
   \<not> startswith (CANCEL_MARK @ '' Cancel'') EXPLAIN_MARK \<and>
   \<not> startswith (CANCEL_MARK @ '' Cancel'') PROCEED_MARK \<and>
   handle_command_execution declining_user ''rm -rf /'' [] [] [] = (Inr False, [])"
proof -
  have c: "gum_choose declining_user DANGEROUS_OPTIONS
      (WARNING_MARK @ ''  DANGEROUS COMMAND DETECTED: '' @ ''rm -rf /'') =
      Inr (CANCEL_MARK @ '' Cancel'')"
    by (rule world_eval)
  have r: "explain_command_risks declining_user ''rm -rf /'' [] [] = Inr ''it deletes everything''"
    by (rule world_eval)
  have n: "\<forall>message. gum_confirm declining_user message = Inr False"
    by (simp add: declining_user_def)
  have k: "classify_command ''rm -rf /'' = ''dangerous''"
    by (rule classify_eval)
  have e: "\<not> startswith (CANCEL_MARK @ '' Cancel'') EXPLAIN_MARK"
    and p: "\<not> startswith (CANCEL_MARK @ '' Cancel'') PROCEED_MARK"
    by (simp_all add: startswith_def CANCEL_MARK_def EXPLAIN_MARK_def PROCEED_MARK_def)
  from k e p have "(\<forall>message. gum_confirm declining_user message = Inr False) \<or>
      (classify_command ''rm -rf /'' = ''dangerous'' \<and>
       \<not> startswith (CANCEL_MARK @ '' Cancel'') EXPLAIN_MARK \<and>
       \<not> startswith (CANCEL_MARK @ '' Cancel'') PROCEED_MARK)"
    by blast
  from rejection_never_executes [OF c r this] c r n k e p show ?thesis
    by blast
qed

text \<open>
  C6, as stated, fails: a run in which the user declines and runs in which the user
  approves and the command then exits with status 1, or bash cannot be started, all return
  \<open>False\<close>.
\<close>

theorem declined_and_failed_alike_counterexample:
  "fst (handle_command_execution declining_user ''ls'' [] [] []) =
     fst (handle_command_execution failing_run ''ls'' [] [] []) \<and>
   fst (handle_command_execution declining_user ''ls'' [] [] []) =
     fst (handle_command_execution failing_spawn ''ls'' [] [] []) \<and>
   fst (handle_command_execution declining_user ''ls'' [] [] []) = Inr False"
  by (simp add: handle_command_execution_def classify_eval confirm_then_execute_def
      execute_command_def declining_user_def failing_run_def failing_spawn_def)

text \<open>
  C6, amended. For any command, a run in which the user declines every confirmation and a
  run in which the user approves (and at the menu of a dangerous command picks the
  explanation or the proceed label) while the subprocess cannot be started or exits with a
  status other than 0 return the same value, \<open>False\<close>. The two runs differ only in the
  calls of \<open>execute_command\<close>: none in the first, one in the second.
\<close>

theorem declined_and_failed_alike:
  assumes choice1: "gum_choose w1 DANGEROUS_OPTIONS
        (WARNING_MARK @ ''  DANGEROUS COMMAND DETECTED: '' @ command) = Inr choice1"
    and risks1: "explain_command_risks w1 command history system_info = Inr risks1"
    and declines: "\<forall>message. gum_confirm w1 message = Inr False"
    and choice2: "gum_choose w2 DANGEROUS_OPTIONS
        (WARNING_MARK @ ''  DANGEROUS COMMAND DETECTED: '' @ command) = Inr choice2"
    and proceeds: "startswith choice2 EXPLAIN_MARK \<or> startswith choice2 PROCEED_MARK"
    and risks2: "explain_command_risks w2 command history system_info = Inr risks2"
    and approves: "\<forall>message. gum_confirm w2 message = Inr True"
    and fails: "\<not> (\<exists>result. subprocess_run w2 command = Inr result \<and> returncode result = 0)"
  shows "handle_command_execution w1 command history system_info calls = (Inr False, calls) \<and>
         handle_command_execution w2 command history system_info calls =
           (Inr False, calls @ [command])"
proof
  have no: "confirm_then_execute w1 message command calls = (Inr False, calls)" for message
    using declines by (simp add: confirm_no)
  show "handle_command_execution w1 command history system_info calls = (Inr False, calls)"
    using choice1 risks1 by (simp add: handle_command_execution_def Let_def no)
next
  have yes: "confirm_then_execute w2 message command calls = (Inr False, calls @ [command])"
    for message
    using approves by (simp add: confirm_yes execute_command_fails [OF fails])
  have ne: "choice2 \<noteq> []"
    using proceeds by (auto simp: startswith_def EXPLAIN_MARK_def PROCEED_MARK_def)
  show "handle_command_execution w2 command history system_info calls =
      (Inr False, calls @ [command])"
    using choice2 risks2 proceeds ne by (auto simp: handle_command_execution_def Let_def yes)
qed

theorem declined_and_failed_alike_witness:
  "(\<forall>message. gum_confirm declining_user message = Inr False) \<and>
   (\<forall>message. gum_confirm failing_run message = Inr True) \<and>
   startswith (PROCEED_MARK @ '' I understand the risks, proceed anyway'') PROCEED_MARK \<and>
   \<not> (\<exists>result. subprocess_run failing_run ''rm -rf /'' = Inr result \<and> returncode result = 0) \<and>
   handle_command_execution declining_user ''rm -rf /'' [] [] [] = (Inr False, []) \<and>
   handle_command_execution failing_run ''rm -rf /'' [] [] [] = (Inr False, [''rm -rf /''])"
proof -
  have d: "\<forall>message. gum_confirm declining_user message = Inr False"
    by (simp add: declining_user_def)
  have a: "\<forall>message. gum_confirm failing_run message = Inr True"
    by (simp add: failing_run_def)
  have p: "startswith (PROCEED_MARK @ '' I understand the risks, proceed anyway'') PROCEED_MARK"
    by (simp add: startswith_def)
  then have p': "startswith (PROCEED_MARK @ '' I understand the risks, proceed anyway'') EXPLAIN_MARK \<or>
      startswith (PROCEED_MARK @ '' I understand the risks, proceed anyway'') PROCEED_MARK"
    by blast
  have f: "\<not> (\<exists>result. subprocess_run failing_run ''rm -rf /'' = Inr result \<and> returncode result = 0)"
    by (simp add: failing_run_def)
  from declined_and_failed_alike [OF world_eval(1) world_eval(3) d world_eval(2) p' world_eval(4) a f,
      of "[]" "[]" "[]"] d a p f
  show ?thesis
    by simp
qed

section \<open>The configuration file\<close>

text \<open>
  C4, as stated, fails: on a file that is not JSON, and on one that cannot be opened,
  \<open>get_backend\<close> raises, and \<open>main\<close>, which calls it outside its \<open>try\<close> block, ends with
  the exception.
\<close>

theorem bad_config_is_fatal_counterexample:
  "get_backend Malformed = Inl JSONDecodeError \<and>
   get_backend Unreadable = Inl OSError \<and>
   main_startup [''davidgnome'', ''hello''] Malformed = Traceback JSONDecodeError \<and>
   main_startup [''davidgnome'', ''hello''] Unreadable = Traceback OSError"
  by (simp add: main_startup_def)

text \<open>
  C4, amended. \<open>get_backend\<close> returns without raising exactly when the file is absent or
  holds a JSON object; it returns \<open>ollama\<close> when the file is absent or the object has no
  \<open>backend\<close> entry, and the entry otherwise. In every other state of the file it raises,
  and a run of \<open>main\<close> with a prompt ends with that exception.
\<close>

theorem get_backend_returns_iff:
  "((\<exists>name. get_backend cfg = Inr name) \<longleftrightarrow>
      cfg = Missing \<or> (\<exists>entries. cfg = Parsed (JObject entries))) \<and>
   get_backend Missing = Inr (JString ''ollama'') \<and>
   get_backend (Parsed (JObject entries)) =
     Inr (case map_of entries ''backend'' of None \<Rightarrow> JString ''ollama'' | Some v \<Rightarrow> v) \<and>
   (2 \<le> length argv \<and> get_backend cfg = Inl e \<longrightarrow> main_startup argv cfg = Traceback e)"
proof -
  have "(\<exists>name. get_backend cfg = Inr name) \<longleftrightarrow>
      cfg = Missing \<or> (\<exists>entries. cfg = Parsed (JObject entries))"
    by (cases cfg rule: get_backend.cases) auto
  moreover have "2 \<le> length argv \<and> get_backend cfg = Inl e \<longrightarrow>
      main_startup argv cfg = Traceback e"
    by (auto simp: main_startup_def)
  ultimately show ?thesis
    by simp
qed

theorem get_backend_returns_iff_witness:
  "get_backend (Parsed (JObject [(''backend'', JString ''gpt'')])) = Inr (JString ''gpt'') \<and>
   get_backend (Parsed (JObject [])) = Inr (JString ''ollama'') \<and>
   2 \<le> length [''davidgnome'', ''hello''] \<and>
   get_backend (Parsed (JArray [])) = Inl AttributeError \<and>
   main_startup [''davidgnome'', ''hello''] (Parsed (JArray [])) = Traceback AttributeError"
  using get_backend_returns_iff [of "Parsed (JArray [])" "[(''backend'', JString ''gpt'')]"
      "[''davidgnome'', ''hello'']" AttributeError]
    get_backend_returns_iff [of Missing "[]" "[]" OSError]
  by simp

section \<open>The prompt of the backends\<close>



section \<open>Facts about lines and stripping\<close>

lemma split_nl_nonempty: "split_nl s \<noteq> []"
  by (induction s) (auto split: list.splits)

lemma split_nl_no_nl: "nl \<notin> set s \<Longrightarrow> split_nl s = [s]"
  by (induction s) auto

lemma split_nl_lines_no_nl: "l \<in> set (split_nl s) \<Longrightarrow> nl \<notin> set l"
  by (induction s arbitrary: l) (auto split: if_splits list.splits)

lemma split_nl_snoc_nl: "split_nl (xs @ [nl]) = split_nl xs @ [[]]"
  by (induction xs) (auto simp: split_nl_nonempty split: list.splits)

lemma split_nl_snoc:
  "c \<noteq> nl \<Longrightarrow> split_nl (xs @ [c]) = butlast (split_nl xs) @ [last (split_nl xs) @ [c]]"
  by (induction xs) (auto simp: split_nl_nonempty split: list.splits)

lemma strip_Nil: "strip [] = []"
  by (simp add: strip_def lstrip_def rstrip_def)

lemma strip_Cons_space: "isspace c \<Longrightarrow> strip (c # l) = strip l"
  by (simp add: strip_def lstrip_def)

lemma rstrip_snoc_space: "isspace c \<Longrightarrow> rstrip (l @ [c]) = rstrip l"
  by (simp add: rstrip_def)

lemma lstrip_snoc_space:
  "isspace c \<Longrightarrow> lstrip (l @ [c]) = (if lstrip l = [] then [] else lstrip l @ [c])"
  by (induction l) (auto simp: lstrip_def)

lemma strip_snoc_space: "isspace c \<Longrightarrow> strip (l @ [c]) = strip l"
  by (simp add: strip_def lstrip_snoc_space rstrip_snoc_space)

lemma set_strip: "set (strip s) \<subseteq> set s"
proof -
  have "set (rstrip t) \<subseteq> set t" for t
    using set_dropWhileD [of _ isspace "rev t"] by (auto simp: rstrip_def)
  moreover have "set (lstrip s) \<subseteq> set s"
    using set_dropWhileD [of _ isspace s] by (auto simp: lstrip_def)
  ultimately show ?thesis
    unfolding strip_def by blast
qed

lemma lstrip_id: "s \<noteq> [] \<Longrightarrow> \<not> isspace (hd s) \<Longrightarrow> lstrip s = s"
  by (cases s) (auto simp: lstrip_def)

lemma rstrip_id: "s \<noteq> [] \<Longrightarrow> \<not> isspace (last s) \<Longrightarrow> rstrip s = s"
  by (cases s rule: rev_cases) (auto simp: rstrip_def)

lemma lstrip_hd: "lstrip s \<noteq> [] \<Longrightarrow> \<not> isspace (hd (lstrip s))"
  unfolding lstrip_def using hd_dropWhile [of isspace s] by blast

lemma rstrip_last: "rstrip s \<noteq> [] \<Longrightarrow> \<not> isspace (last (rstrip s))"
  unfolding rstrip_def using hd_dropWhile [of isspace "rev s"] by (simp add: last_rev)

lemma rstrip_hd: "rstrip s \<noteq> [] \<Longrightarrow> s \<noteq> [] \<Longrightarrow> \<not> isspace (hd s) \<Longrightarrow> hd (rstrip s) = hd s"
proof (induction s rule: rev_induct)
  case Nil
  then show ?case by simp
next
  case (snoc x xs)
  show ?case
  proof (cases "isspace x")
    case True
    with snoc show ?thesis
      by (cases xs) (auto simp: rstrip_snoc_space rstrip_def)
  next
    case False
    then show ?thesis
      by (simp add: rstrip_def)
  qed
qed

text \<open>A stripped, non-empty string neither begins nor ends with whitespace.\<close>

lemma strip_ends:
  assumes "strip s \<noteq> []"
  shows "\<not> isspace (hd (strip s))" and "\<not> isspace (last (strip s))"
proof -
  from assms have l: "lstrip s \<noteq> []"
    by (auto simp: strip_def rstrip_def)
  show "\<not> isspace (last (strip s))"
    using assms rstrip_last [of "lstrip s"] by (simp add: strip_def)
  show "\<not> isspace (hd (strip s))"
    using assms l lstrip_hd [OF l] rstrip_hd [of "lstrip s"] by (simp add: strip_def)
qed

lemma strip_id: "s \<noteq> [] \<Longrightarrow> \<not> isspace (hd s) \<Longrightarrow> \<not> isspace (last s) \<Longrightarrow> strip s = s"
  by (simp add: strip_def lstrip_id rstrip_id)

lemma strip_strip: "strip (strip s) = strip s"
proof (cases "strip s = []")
  case True
  then show ?thesis by (simp add: strip_Nil)
next
  case False
  then show ?thesis
    by (simp add: strip_id strip_ends)
qed

section \<open>Facts about the fenced blocks\<close>

lemma kept_lines_lstrip:
  assumes "\<not> P []"
  shows "filter P (map strip (split_nl (lstrip b))) = filter P (map strip (split_nl b))"
proof (induction b)
  case Nil
  show ?case by (simp add: lstrip_def)
next
  case (Cons c cs)
  show ?case
  proof (cases "isspace c")
    case False
    then show ?thesis by (simp add: lstrip_def)
  next
    case True
    then have "lstrip (c # cs) = lstrip cs"
      by (simp add: lstrip_def)
    moreover have "filter P (map strip (split_nl (c # cs))) = filter P (map strip (split_nl cs))"
      using True assms
      by (cases "split_nl cs") (auto simp: split_nl_nonempty strip_Nil strip_Cons_space)
    ultimately show ?thesis
      using Cons.IH by simp
  qed
qed

lemma kept_lines_rstrip:
  assumes "\<not> P []"
  shows "filter P (map strip (split_nl (rstrip b))) = filter P (map strip (split_nl b))"
proof (induction b rule: rev_induct)
  case Nil
  show ?case by (simp add: rstrip_def)
next
  case (snoc c cs)
  show ?case
  proof (cases "isspace c")
    case False
    then show ?thesis by (simp add: rstrip_def)
  next
    case True
    have "filter P (map strip (split_nl (cs @ [c]))) = filter P (map strip (split_nl cs))"
    proof (cases "c = nl")
      case True
      with assms show ?thesis
        by (simp add: split_nl_snoc_nl strip_Nil)
    next
      case False
      have "map strip (butlast (split_nl cs) @ [last (split_nl cs) @ [c]]) =
          map strip (butlast (split_nl cs) @ [last (split_nl cs)])"
        using \<open>isspace c\<close> by (simp add: strip_snoc_space)
      also have "\<dots> = map strip (split_nl cs)"
        by (simp add: split_nl_nonempty)
      finally show ?thesis
        using False by (simp add: split_nl_snoc)
    qed
    with True snoc.IH show ?thesis
      by (simp add: rstrip_snoc_space)
  qed
qed

text \<open>
  Stripping the block before it is split changes nothing: the lines it removes or shortens
  are stripped again, or are blank and dropped.
\<close>

lemma block_lines_unstripped:
  "block_lines block =
     filter (\<lambda>line. line \<noteq> [] \<and> \<not> startswith line ''#'') (map strip (split_nl block))"
  by (simp add: block_lines_def strip_def kept_lines_rstrip kept_lines_lstrip)

lemma fence_prefix_straddle:
  "prefix FENCE ((c # b) @ FENCE @ post) \<Longrightarrow> prefix FENCE ((c # b) @ ''``'')"
proof (cases b)
  case Nil
  then show "prefix FENCE ((c # b) @ FENCE @ post) \<Longrightarrow> prefix FENCE ((c # b) @ ''``'')"
    by (simp add: FENCE_def)
next
  case (Cons d b')
  then show "prefix FENCE ((c # b) @ FENCE @ post) \<Longrightarrow> prefix FENCE ((c # b) @ ''``'')"
    by (cases b') (auto simp: FENCE_def)
qed

lemma find_fence_next:
  "\<not> contains FENCE (body @ ''``'') \<Longrightarrow> find_fence (body @ FENCE @ post) = Some (body, post)"
proof (induction body)
  case Nil
  show ?case by (simp add: FENCE_def)
next
  case (Cons c b)
  from Cons.prems have "\<not> prefix FENCE ((c # b) @ ''``'')" and "\<not> contains FENCE (b @ ''``'')"
    by simp_all
  with Cons.IH fence_prefix_straddle [of c b post] show ?case
    by auto
qed

lemma match_block_tag:
  assumes "tag \<in> set [''bash'', ''sh'', ''shell'', []]"
  shows "match_block (FENCE @ tag @ nl # rest) = find_fence rest"
  using assms
  by (cases "find_fence rest") (auto simp: match_block_def tag_then_body_def FENCE_def nl_def)

lemma no_tag_after_backtick:
  assumes "tag \<in> set [''bash'', ''sh'', ''shell'', []]"
  shows "tag_then_body tag (CHR ''`'' # r) = None"
  using assms by (auto simp: tag_then_body_def nl_def)

lemma match_block_straddle:
  assumes "\<not> contains FENCE (c # p)"
  shows "match_block ((c # p) @ FENCE @ r) = None"
proof (cases "prefix FENCE ((c # p) @ FENCE @ r)")
  case False
  then show ?thesis by (simp add: match_block_def)
next
  case True
  from assms have np: "\<not> prefix FENCE (c # p)"
    by simp
  show ?thesis
  proof (cases p)
    case Nil
    with True have "(c # p) @ FENCE @ r = FENCE @ CHR ''`'' # r"
      by (auto simp: FENCE_def)
    then show ?thesis
      by (simp add: match_block_def FENCE_def no_tag_after_backtick)
  next
    case (Cons d p')
    show ?thesis
    proof (cases p')
      case Nil
      with True Cons have "(c # p) @ FENCE @ r = FENCE @ CHR ''`'' # CHR ''`'' # r"
        by (auto simp: FENCE_def)
      then show ?thesis
        by (simp add: match_block_def FENCE_def no_tag_after_backtick)
    next
      case (Cons e p'')
      with True np \<open>p = d # p'\<close> show ?thesis
        by (auto simp: FENCE_def)
    qed
  qed
qed

lemma findall_blocks_skip:
  "\<not> contains FENCE pre \<Longrightarrow> findall_blocks (pre @ FENCE @ r) = findall_blocks (FENCE @ r)"
proof (induction pre)
  case Nil
  show ?case by simp
next
  case (Cons c p)
  from Cons.prems have "\<not> contains FENCE p"
    by simp
  with Cons.IH match_block_straddle [OF Cons.prems, of r] show ?case
    by simp
qed

lemma findall_blocks_first:
  assumes "tag \<in> set [''bash'', ''sh'', ''shell'', []]"
    and "\<not> contains FENCE pre"
    and "\<not> contains FENCE (body @ ''``'')"
  shows "findall_blocks (pre @ FENCE @ tag @ [nl] @ body @ FENCE @ post) =
    body # findall_blocks post"
proof -
  have "match_block (FENCE @ tag @ nl # body @ FENCE @ post) = Some (body, post)"
    using match_block_tag [OF assms(1), of "body @ FENCE @ post"] find_fence_next [OF assms(3), of post]
    by simp
  then have "findall_blocks (FENCE @ tag @ nl # body @ FENCE @ post) = body # findall_blocks post"
    by (simp add: FENCE_def)
  with findall_blocks_skip [OF assms(2), of "tag @ nl # body @ FENCE @ post"] show ?thesis
    by simp
qed

section \<open>Facts about the inline spans\<close>

lemma match_inline_Some:
  assumes "match_inline s = Some (span, rest)"
  shows "s = CHR ''`'' # span @ CHR ''`'' # rest" and "span \<noteq> []"
    and "\<forall>c \<in> set span. inline_char c"
proof -
  from assms obtain cs where s: "s = CHR ''`'' # cs"
    by (cases s) (auto simp: match_inline_def split: if_splits)
  from assms s have span: "span = takeWhile inline_char cs" and ne: "span \<noteq> []"
    and p: "prefix ''`'' (dropWhile inline_char cs)" and rest: "rest = drop 1 (dropWhile inline_char cs)"
    by (auto simp: match_inline_def Let_def split: if_splits)
  from p rest have "dropWhile inline_char cs = CHR ''`'' # rest"
    by (cases "dropWhile inline_char cs") auto
  with span takeWhile_dropWhile_id [of inline_char cs] have "cs = span @ CHR ''`'' # rest"
    by simp
  with s show "s = CHR ''`'' # span @ CHR ''`'' # rest"
    by simp
  show "span \<noteq> []"
    by (rule ne)
  show "\<forall>c \<in> set span. inline_char c"
    unfolding span by (auto dest: set_takeWhileD)
qed

text \<open>Every span the pattern finds stands between two backticks of the text.\<close>

lemma findall_inline_spans:
  "s \<in> set (findall_inline t) \<Longrightarrow>
   s \<noteq> [] \<and> (\<forall>c \<in> set s. inline_char c) \<and> (\<exists>pre post. t = pre @ CHR ''`'' # s @ CHR ''`'' # post)"
proof (induction t rule: findall_inline.induct)
  case 1
  then show ?case by simp
next
  case (2 c cs)
  show ?case
  proof (cases "match_inline (c # cs)")
    case None
    with 2 have "s \<noteq> [] \<and> (\<forall>c \<in> set s. inline_char c) \<and>
        (\<exists>pre post. cs = pre @ CHR ''`'' # s @ CHR ''`'' # post)"
      by simp
    then obtain pre post where "s \<noteq> []" "\<forall>c \<in> set s. inline_char c"
      "c # cs = (c # pre) @ CHR ''`'' # s @ CHR ''`'' # post"
      by auto
    then show ?thesis
      by blast
  next
    case (Some m)
    obtain span rest where m: "m = (span, rest)"
      by (cases m)
    note ms = match_inline_Some [OF Some [unfolded m]]
    from 2(3) Some m consider "s = span" | "s \<in> set (findall_inline rest)"
      by auto
    then show ?thesis
    proof cases
      case 1
      with ms have "c # cs = [] @ CHR ''`'' # s @ CHR ''`'' # rest"
        by simp
      with ms 1 show ?thesis
        by blast
    next
      case 2
      with "2.IH"(2) [OF Some m [symmetric]] obtain pre post where "s \<noteq> []" "\<forall>c \<in> set s. inline_char c"
        "rest = pre @ CHR ''`'' # s @ CHR ''`'' # post"
        by auto
      with ms(1) have "c # cs = (CHR ''`'' # span @ CHR ''`'' # pre) @ CHR ''`'' # s @ CHR ''`'' # post"
        by simp
      with \<open>s \<noteq> []\<close> \<open>\<forall>c \<in> set s. inline_char c\<close> show ?thesis
        by blast
    qed
  qed
qed

lemma findall_inline_skip:
  "CHR ''`'' \<notin> set pre \<Longrightarrow> findall_inline (pre @ r) = findall_inline r"
  by (induction pre) (auto simp: match_inline_def)


section \<open>The shape of an extracted command\<close>

lemma find_fence_Some:
  "find_fence s = Some (b, r) \<Longrightarrow> s = b @ FENCE @ r \<and> \<not> contains FENCE b"
proof (induction s arbitrary: b r)
  case Nil
  then show ?case by simp
next
  case (Cons c cs)
  show ?case
  proof (cases "prefix FENCE (c # cs)")
    case True
    with Cons.prems have "b = []" and "r = drop 3 (c # cs)"
      by auto
    moreover from True have "c # cs = FENCE @ drop 3 (c # cs)"
      by (auto simp: prefix_def FENCE_def)
    ultimately show ?thesis
      by (simp add: FENCE_def)
  next
    case False
    with Cons.prems obtain b' where f: "find_fence cs = Some (b', r)" and b: "b = c # b'"
      by (auto split: option.splits)
    from Cons.IH [OF f] have cs: "cs = b' @ FENCE @ r" and nb: "\<not> contains FENCE b'"
      by simp_all
    have "\<not> prefix FENCE (c # b')"
    proof
      assume "prefix FENCE (c # b')"
      then have "prefix FENCE ((c # b') @ FENCE @ r)"
        by (rule prefix_prefix)
      with False cs show False
        by simp
    qed
    with nb b cs show ?thesis
      by simp
  qed
qed

lemma first_some_mem: "first_some xs = Some y \<Longrightarrow> Some y \<in> set xs"
  by (induction xs rule: first_some.induct) auto

lemma match_block_Some: "match_block s = Some (b, r) \<Longrightarrow> \<not> contains FENCE b"
proof -
  assume "match_block s = Some (b, r)"
  then have "first_some (map (\<lambda>tag. tag_then_body tag (drop 3 s)) [''bash'', ''sh'', ''shell'', []])
      = Some (b, r)"
    by (simp add: match_block_def split: if_splits)
  from first_some_mem [OF this] obtain tag where "tag_then_body tag (drop 3 s) = Some (b, r)"
    by auto
  then have "find_fence (drop (length tag + 1) (drop 3 s)) = Some (b, r)"
    by (simp add: tag_then_body_def split: if_splits)
  then show ?thesis
    by (simp add: find_fence_Some)
qed

lemma findall_blocks_no_fence: "b \<in> set (findall_blocks t) \<Longrightarrow> \<not> contains FENCE b"
proof (induction t rule: findall_blocks.induct)
  case 1
  then show ?case by simp
next
  case (2 c cs)
  show ?case
  proof (cases "match_block (c # cs)")
    case None
    with 2 show ?thesis by simp
  next
    case (Some m)
    obtain body rest where m: "m = (body, rest)"
      by (cases m)
    from 2(3) Some m consider "b = body" | "b \<in> set (findall_blocks rest)"
      by auto
    then show ?thesis
    proof cases
      case 1
      with Some m show ?thesis
        by (simp add: match_block_Some)
    next
      case 2
      with "2.IH"(2) [OF Some m [symmetric]] show ?thesis
        by simp
    qed
  qed
qed

lemma sublist_strip: "sublist (strip s) s"
proof -
  have "suffix (lstrip s) s"
    by (simp add: lstrip_def suffix_dropWhile)
  moreover have "prefix (rstrip t) t" for t
  proof -
    have "rev (rev t) = rev (takeWhile isspace (rev t) @ dropWhile isspace (rev t))"
      by (simp only: takeWhile_dropWhile_id)
    then have "t = rev (dropWhile isspace (rev t)) @ rev (takeWhile isspace (rev t))"
      by (simp only: rev_rev_ident rev_append)
    then show ?thesis
      unfolding rstrip_def prefix_def by blast
  qed
  ultimately have "sublist (lstrip s) s" and "sublist (rstrip (lstrip s)) (lstrip s)"
    by (simp_all only: suffix_imp_sublist prefix_imp_sublist)
  then show ?thesis
    unfolding strip_def by (rule sublist_order.order_trans [rotated])
qed

lemma split_nl_hd_prefix: "prefix (hd (split_nl s)) s"
  by (induction s) (auto split: list.splits)

lemma split_nl_sublist: "l \<in> set (split_nl s) \<Longrightarrow> sublist l s"
proof (induction s arbitrary: l)
  case Nil
  then show ?case by simp
next
  case (Cons c cs)
  show ?case
  proof (cases "c = nl")
    case True
    with Cons show ?thesis
      by (auto simp: sublist_Cons_right)
  next
    case False
    obtain l0 ls where sp: "split_nl cs = l0 # ls"
      using split_nl_nonempty [of cs] by (cases "split_nl cs") auto
    with Cons.prems False consider "l = c # l0" | "l \<in> set ls"
      by auto
    then show ?thesis
    proof cases
      case 1
      from split_nl_hd_prefix [of cs] sp have "prefix l0 cs"
        by simp
      with 1 show ?thesis
        by (simp add: sublist_Cons_right)
    next
      case 2
      with sp Cons.IH [of l] show ?thesis
        by (simp add: sublist_Cons_right)
    qed
  qed
qed

lemma contains_mono: "contains sub x \<Longrightarrow> sublist x y \<Longrightarrow> contains sub y"
  unfolding contains_iff_sublist by (rule sublist_order.order_trans)

lemma no_backtick_no_fence: "CHR ''`'' \<notin> set s \<Longrightarrow> \<not> contains FENCE s"
  by (induction s) (auto simp: FENCE_def)

lemma fence_before_nl:
  "\<not> contains FENCE c \<Longrightarrow> \<not> contains FENCE (c @ nl # ''``'')"
proof (induction c)
  case Nil
  show ?case by (simp add: FENCE_def nl_def)
next
  case (Cons x xs)
  have "prefix FENCE (x # xs) " if "prefix FENCE (x # xs @ nl # ''``'')"
  proof (cases xs)
    case Nil
    with that show ?thesis by (simp add: FENCE_def nl_def)
  next
    case (Cons y ys)
    with that show ?thesis
      by (cases ys) (auto simp: FENCE_def nl_def)
  qed
  with Cons show ?case
    by auto
qed

text \<open>What every extracted command looks like.\<close>

lemma block_lines_shape:
  assumes "c \<in> set (block_lines b)"
  shows "c \<noteq> []" and "strip c = c" and "nl \<notin> set c" and "\<not> startswith c ''#''"
    and "contains FENCE c \<Longrightarrow> contains FENCE b"
proof -
  from assms obtain l where l: "l \<in> set (split_nl (strip b))" and c: "c = strip l"
    and ne: "c \<noteq> []" and h: "\<not> startswith c ''#''"
    by (auto simp: block_lines_def)
  show "c \<noteq> []" by (rule ne)
  show "\<not> startswith c ''#''" by (rule h)
  show "strip c = c"
    by (simp add: c strip_strip)
  from split_nl_lines_no_nl [OF l] set_strip [of l] show "nl \<notin> set c"
    by (auto simp: c)
  have "sublist c b"
    using sublist_strip [of l] split_nl_sublist [OF l] sublist_strip [of b]
    unfolding c by (meson sublist_order.order_trans)
  then show "contains FENCE c \<Longrightarrow> contains FENCE b"
    by (rule contains_mono [rotated])
qed

lemma inline_keep_shape:
  assumes "inline_keep c"
  shows "c \<noteq> []" and "\<not> startswith c ''#''"
proof -
  from assms show "c \<noteq> []"
    by (auto simp: inline_keep_def)
  from assms obtain p where "p \<in> set INLINE_PREFIXES" "prefix p c"
    by (auto simp: inline_keep_def list_ex_iff startswith_def)
  then show "\<not> startswith c ''#''"
    by (auto simp: INLINE_PREFIXES_def startswith_def prefix_def)
qed

lemma extract_commands_shape:
  assumes "c \<in> set (extract_commands t)"
  shows "c \<noteq> [] \<and> strip c = c \<and> nl \<notin> set c \<and> \<not> startswith c ''#'' \<and> \<not> contains FENCE c"
proof -
  from assms consider b where "b \<in> set (findall_blocks t)" "c \<in> set (block_lines b)"
    | s where "s \<in> set (findall_inline t)" "c = strip s" "inline_keep c"
    by (auto simp: extract_commands_def)
  then show ?thesis
  proof cases
    case 1
    with block_lines_shape [OF 1(2)] findall_blocks_no_fence [OF 1(1)] show ?thesis
      by blast
  next
    case 2
    from findall_inline_spans [OF 2(1)] set_strip [of s] have "CHR ''`'' \<notin> set c" "nl \<notin> set c"
      by (auto simp: 2(2) inline_char_def)
    with inline_keep_shape [OF 2(3)] no_backtick_no_fence [of c] show ?thesis
      by (simp add: 2(2) strip_strip)
  qed
qed

section \<open>Re-extraction of a fenced command\<close>

lemma findall_inline_fence_bash:
  "findall_inline (''```bash'' @ [nl] @ r) = findall_inline r"
  by (simp add: match_inline_def inline_char_def nl_def)

lemma rewrap_blocks:
  assumes "\<not> contains FENCE c"
  shows "findall_blocks (''```bash'' @ [nl] @ c @ [nl] @ ''```'') = [c @ [nl]]"
proof -
  have "\<not> contains FENCE []"
    by (simp add: FENCE_def)
  moreover have "\<not> contains FENCE ((c @ [nl]) @ ''``'')"
    using fence_before_nl [OF assms] by simp
  ultimately have "findall_blocks ([] @ FENCE @ ''bash'' @ [nl] @ (c @ [nl]) @ FENCE @ []) =
      (c @ [nl]) # findall_blocks []"
    by (intro findall_blocks_first) simp_all
  then show ?thesis
    by (simp add: FENCE_def)
qed

lemma rewrap_lines:
  assumes "c \<noteq> []" and "strip c = c" and "nl \<notin> set c" and "\<not> startswith c ''#''"
  shows "block_lines (c @ [nl]) = [c]"
  using assms
  by (simp add: block_lines_unstripped split_nl_snoc_nl split_nl_no_nl strip_Nil)

lemma rewrap_no_inline:
  assumes "CHR ''`'' \<notin> set c"
  shows "findall_inline (''```bash'' @ [nl] @ c @ [nl] @ ''```'') = []"
proof -
  have "findall_inline (''```bash'' @ [nl] @ c @ [nl] @ ''```'') =
      findall_inline ((c @ [nl]) @ ''```'')"
    using findall_inline_fence_bash [of "c @ [nl] @ ''```''"] by simp
  also have "\<dots> = findall_inline ''```''"
    using assms by (intro findall_inline_skip) (simp add: nl_def)
  also have "\<dots> = []"
    by (simp add: match_inline_def)
  finally show ?thesis .
qed

lemmas extract_eval =
  extract_commands_def match_block_def tag_then_body_def FENCE_def nl_def match_inline_def
  inline_char_def block_lines_def strip_def lstrip_def rstrip_def isspace_def inline_keep_def
  INLINE_PREFIXES_def startswith_def

section \<open>The scan for inline spans, before and after a backtick\<close>






section \<open>The scan for fenced blocks, before and after a marker\<close>








text \<open>Without a marker there is no block.\<close>

lemma findall_blocks_none: "\<not> contains FENCE s \<Longrightarrow> findall_blocks s = []"
proof (induction s)
  case Nil
  show ?case by simp
next
  case (Cons c cs)
  from Cons.prems have "\<not> prefix FENCE (c # cs)" and "\<not> contains FENCE cs"
    by simp_all
  then have "match_block (c # cs) = None" and "findall_blocks cs = []"
    using Cons.IH by (simp_all add: match_block_def)
  then show ?case
    by simp
qed







lemma findall_blocks_free_first:
  assumes "\<not> contains FENCE pre"
  shows "findall_blocks (pre @ FENCE) = findall_blocks pre"
  using findall_blocks_skip [OF assms, of "[]"] findall_blocks_none [OF assms]
  by (simp add: FENCE_def match_block_def tag_then_body_def)

section \<open>The extractor\<close>







text \<open>
  C3, as stated, fails: a command taken from a fenced block may itself hold an inline span
  that passes the inline test, and the re-extraction returns that span as a second command.
\<close>

theorem rewrap_roundtrip_counterexample:
  "''echo `ls -la`'' \<in> set (extract_commands (''```'' @ [nl] @ ''echo `ls -la`'' @ [nl] @ ''```'')) \<and>
   extract_commands (''```bash'' @ [nl] @ ''echo `ls -la`'' @ [nl] @ ''```'') =
     [''echo `ls -la`'', ''ls -la'']"
  by (simp add: extract_eval)

text \<open>
  C3, amended. For every text \<open>t\<close> and every command \<open>c\<close> of \<open>extract_commands t\<close>,
  extracting from \<open>c\<close> wrapped in a \<open>bash\<close> fence yields \<open>c\<close> first, followed only by
  the inline spans found in the wrapped text that pass the inline test; when \<open>c\<close> holds
  no backtick the result is exactly \<open>[c]\<close>.
\<close>

theorem rewrap_roundtrip:
  assumes "c \<in> set (extract_commands t)"
  shows "extract_commands (''```bash'' @ [nl] @ c @ [nl] @ ''```'') =
       c # filter inline_keep
             (map strip (findall_inline (''```bash'' @ [nl] @ c @ [nl] @ ''```''))) \<and>
     (CHR ''`'' \<notin> set c \<longrightarrow>
        extract_commands (''```bash'' @ [nl] @ c @ [nl] @ ''```'') = [c])"
proof -
  from extract_commands_shape [OF assms] have shape: "c \<noteq> []" "strip c = c" "nl \<notin> set c"
    "\<not> startswith c ''#''" and nf: "\<not> contains FENCE c"
    by simp_all
  have first: "extract_commands (''```bash'' @ [nl] @ c @ [nl] @ ''```'') =
       c # filter inline_keep
             (map strip (findall_inline (''```bash'' @ [nl] @ c @ [nl] @ ''```'')))"
    unfolding extract_commands_def Let_def rewrap_blocks [OF nf]
    by (simp add: rewrap_lines [OF shape])
  have "extract_commands (''```bash'' @ [nl] @ c @ [nl] @ ''```'') = [c]" if "CHR ''`'' \<notin> set c"
    by (simp only: first rewrap_no_inline [OF that] list.map filter.simps)
  with first show ?thesis
    by blast
qed

theorem rewrap_roundtrip_witness:
  "''ls -la'' \<in> set (extract_commands (''Try `ls -la` now'')) \<and>
   CHR ''`'' \<notin> set ''ls -la'' \<and>
   extract_commands (''```bash'' @ [nl] @ ''ls -la'' @ [nl] @ ''```'') = [''ls -la'']"
proof -
  have m: "''ls -la'' \<in> set (extract_commands (''Try `ls -la` now''))"
    by (simp add: extract_eval)
  have b: "CHR ''`'' \<notin> set ''ls -la''"
    by simp
  from rewrap_roundtrip [OF m] m b show ?thesis
    by blast
qed

end
